theory Spec2Isabelle
  imports Complex_Main "HOL-Library.AList"
begin

section \<open>Python values and errors\<close>

text \<open>
  The module \<^verbatim>\<open>data_processing.py\<close> is embedded function by function. Every
  exception the Python code can raise is a value of \<open>error\<close>; a function that can
  raise returns \<open>error + 'a\<close> with \<open>Inl\<close> for the exception.
\<close>

datatype error =
    KeyError
  | IndexError
  | ZeroDivisionError
  | ValueError
  | RuntimeError
  | OverflowError
  | EmptyInputError
  | ZeroVectorError

text \<open>
  \<open>OverflowError\<close> is the error of \<^verbatim>\<open>torch.randint\<close> for a bound that does not fit a
  signed 64-bit integer. \<open>EmptyInputError\<close> and \<open>ZeroVectorError\<close> are the error kinds
  the specification names; no statement of the module raises them.
\<close>

text \<open>
  A \<^verbatim>\<open>dict\<close> is an association list in insertion order. Storing under a key
  that is present replaces the value in place, storing under a new key appends:
  this is \<open>AList.update\<close>. Reading a missing key raises \<^verbatim>\<open>KeyError\<close>.
\<close>

type_synonym ('k, 'v) dict = "('k \<times> 'v) list"

definition dict_get :: "('k, 'v) dict \<Rightarrow> 'k \<Rightarrow> error + 'v" where
  "dict_get d k = (case map_of d k of None \<Rightarrow> Inl KeyError | Some v \<Rightarrow> Inr v)"

text \<open>A dict comprehension \<^verbatim>\<open>{k: v for ...}\<close> stores the pairs one after the other.\<close>

definition dict_of :: "('k \<times> 'v) list \<Rightarrow> ('k, 'v) dict" where
  "dict_of kvs = fold (\<lambda>(k, v) d. AList.update k v d) kvs []"

text \<open>A comprehension whose element expression can raise stops at the first exception.\<close>

fun mapM :: "('a \<Rightarrow> error + 'b) \<Rightarrow> 'a list \<Rightarrow> error + 'b list" where
  "mapM f [] = Inr []"
| "mapM f (x # xs) =
     (case f x of
        Inl e \<Rightarrow> Inl e
      | Inr y \<Rightarrow> (case mapM f xs of Inl e \<Rightarrow> Inl e | Inr ys \<Rightarrow> Inr (y # ys)))"

text \<open>\<^verbatim>\<open>xs[i]\<close>: a negative index counts from the end, out of range raises.\<close>

definition py_index :: "'a list \<Rightarrow> int \<Rightarrow> error + 'a" where
  "py_index xs i =
     (let n = int (length xs); j = (if i < 0 then i + n else i)
      in if 0 \<le> j \<and> j < n then Inr (xs ! nat j) else Inl IndexError)"

text \<open>\<^verbatim>\<open>xs[lo:hi]\<close>: both bounds are normalised into \<open>0..len\<close>, never an error.\<close>

definition slice_bound :: "nat \<Rightarrow> int \<Rightarrow> nat" where
  "slice_bound n i = (if i < 0 then nat (max 0 (i + int n)) else min (nat i) n)"

definition py_slice :: "'a list \<Rightarrow> int \<Rightarrow> int \<Rightarrow> 'a list" where
  "py_slice xs lo hi =
     (let a = slice_bound (length xs) lo; b = slice_bound (length xs) hi
      in take (b - a) (drop a xs))"

text \<open>
  \<^verbatim>\<open>range(start, stop, step)\<close>: \<^verbatim>\<open>ValueError\<close> for a zero step, otherwise the
  arithmetic progression from \<open>start\<close> that stays strictly before \<open>stop\<close>.
\<close>

definition py_range :: "int \<Rightarrow> int \<Rightarrow> int \<Rightarrow> error + int list" where
  "py_range start stop step =
     (if step = 0 then Inl ValueError
      else if 0 < step then
        Inr (map (\<lambda>k. start + int k * step) [0..<nat ((stop - start + step - 1) div step)])
      else
        Inr (map (\<lambda>k. start + int k * step) [0..<nat ((start - stop - step - 1) div (- step))]))"

section \<open>Vocabulary Builder\<close>

text \<open>
  \<^verbatim>\<open>collections.Counter(words)\<close> counts the elements in one pass: a dict from
  element to count, keys in the order of first occurrence.
\<close>

fun counter_add :: "'a \<Rightarrow> ('a, nat) dict \<Rightarrow> ('a, nat) dict" where
  "counter_add w [] = [(w, 1)]"
| "counter_add w ((k, c) # kvs) =
     (if k = w then (k, c + 1) # kvs else (k, c) # counter_add w kvs)"

definition Counter :: "'a list \<Rightarrow> ('a, nat) dict" where
  "Counter words = fold counter_add words []"

text \<open>
  \<^verbatim>\<open>Counter.most_common()\<close> is \<^verbatim>\<open>sorted(self.items(), key=itemgetter(1), reverse=True)\<close>:
  a stable sort by descending count, so elements with equal counts stay in the order
  of first occurrence.
\<close>

definition most_common :: "('a, nat) dict \<Rightarrow> ('a \<times> nat) list" where
  "most_common word_counts = sort_key (\<lambda>(w, c). - int c) word_counts"

text \<open>
  \<^verbatim>\<open>
  word_counts = Counter(words)
  sorted_vocab = word_counts.most_common()
  int_to_vocab = {integer: word[0] for integer, word in enumerate(sorted_vocab)}
  vocab_to_int = {word[0]: integer for integer, word in enumerate(sorted_vocab)}
  return vocab_to_int, int_to_vocab
  \<close>
\<close>

definition create_lookup_tables :: "string list \<Rightarrow> (string, nat) dict \<times> (nat, string) dict" where
  "create_lookup_tables words =
     (let word_counts = Counter words;
          sorted_vocab = most_common word_counts;
          int_to_vocab = dict_of (map (\<lambda>(integer, word). (integer, fst word)) (enumerate 0 sorted_vocab));
          vocab_to_int = dict_of (map (\<lambda>(integer, word). (fst word, integer)) (enumerate 0 sorted_vocab))
      in (vocab_to_int, int_to_vocab))"

section \<open>Sequencing of fallible steps\<close>

definition bindE :: "error + 'a \<Rightarrow> ('a \<Rightarrow> error + 'b) \<Rightarrow> error + 'b" where
  "bindE m f = (case m of Inl e \<Rightarrow> Inl e | Inr x \<Rightarrow> f x)"

text \<open>\<^verbatim>\<open>a / b\<close> on Python numbers raises \<^verbatim>\<open>ZeroDivisionError\<close> for a zero divisor.\<close>

definition py_truediv :: "real \<Rightarrow> real \<Rightarrow> error + real" where
  "py_truediv a b = (if b = 0 then Inl ZeroDivisionError else Inr (a / b))"

section \<open>Tensor scalars\<close>

text \<open>
  A tensor element is a real number or one of the non-finite values. The operations
  below compute on the finite values exactly and follow IEEE 754 on the non-finite
  values; they never raise. The sign of zero is not modelled.
\<close>

datatype tfloat = Fin real | PInf | NInf | NaN

text \<open>
  The tensors of \<open>subsample_words\<close> hold single-precision numbers (the default
  dtype of \<^verbatim>\<open>torch.tensor\<close> on a Python float). \<open>float32 x\<close> is the binary32 number
  nearest to \<open>x\<close>: the exponent \<open>e\<close> of \<open>x\<close> (at least \<open>-126\<close>, the subnormal range),
  24 significant bits, so a spacing of \<open>2 powi (e - 23)\<close>, ties to the even multiple
  of the spacing, and infinity from \<open>2 ^ 128\<close> on.
\<close>

definition round_half_even :: "real \<Rightarrow> int" where
  "round_half_even z =
     (let f = \<lfloor>z\<rfloor>; d = z - of_int f
      in if d < 1 / 2 then f else if 1 / 2 < d then f + 1 else if even f then f else f + 1)"

definition float32 :: "real \<Rightarrow> tfloat" where
  "float32 x =
     (if x = 0 then Fin 0
      else
        let e = max (- 126) \<lfloor>log 2 \<bar>x\<bar>\<rfloor>;
            ulp = 2 powi (e - 23);
            y = of_int (round_half_even (x / ulp)) * ulp
        in if 2 ^ 128 \<le> \<bar>y\<bar> then (if 0 < x then PInf else NInf) else Fin y)"

text \<open>The result of a single-precision operation is the rounding of the exact result.\<close>

fun tround :: "tfloat \<Rightarrow> tfloat" where
  "tround (Fin x) = float32 x"
| "tround PInf = PInf"
| "tround NInf = NInf"
| "tround NaN = NaN"

fun tneg :: "tfloat \<Rightarrow> tfloat" where
  "tneg (Fin x) = Fin (- x)"
| "tneg PInf = NInf"
| "tneg NInf = PInf"
| "tneg NaN = NaN"

fun tadd :: "tfloat \<Rightarrow> tfloat \<Rightarrow> tfloat" where
  "tadd NaN y = NaN"
| "tadd x NaN = NaN"
| "tadd (Fin x) (Fin y) = Fin (x + y)"
| "tadd PInf NInf = NaN"
| "tadd NInf PInf = NaN"
| "tadd PInf y = PInf"
| "tadd NInf y = NInf"
| "tadd (Fin x) y = y"

definition tsub :: "tfloat \<Rightarrow> tfloat \<Rightarrow> tfloat" where
  "tsub x y = tadd x (tneg y)"





fun tsqrt :: "tfloat \<Rightarrow> tfloat" where
  "tsqrt (Fin x) = (if x < 0 then NaN else Fin (sqrt x))"
| "tsqrt PInf = PInf"
| "tsqrt NInf = NaN"
| "tsqrt NaN = NaN"

text \<open>\<open>x > y\<close>: false as soon as one side is NaN.\<close>

fun tgt :: "tfloat \<Rightarrow> tfloat \<Rightarrow> bool" where
  "tgt NaN y = False"
| "tgt x NaN = False"
| "tgt (Fin x) (Fin y) = (y < x)"
| "tgt PInf y = (y \<noteq> PInf)"
| "tgt x NInf = (x \<noteq> NInf)"
| "tgt x y = False"

section \<open>Subsampler\<close>

text \<open>
  \<^verbatim>\<open>freqs = {word: count / total_words for word, count in word_counts.items()}\<close>
\<close>

definition freqs_of :: "(string, nat) dict \<Rightarrow> nat \<Rightarrow> error + (string, real) dict" where
  "freqs_of word_counts total_words =
     bindE (mapM (\<lambda>(word, count).
                    bindE (py_truediv (real count) (real total_words)) (\<lambda>q. Inr (word, q)))
                 word_counts)
           (\<lambda>kvs. Inr (dict_of kvs))"

text \<open>
  \<^verbatim>\<open>prob_discard = {word: 1 - (torch.sqrt(torch.tensor(threshold/freq))) for word, freq in freqs.items()}\<close>
  The quotient is a Python division, so it is the step that can raise.
  \<^verbatim>\<open>torch.tensor\<close> stores the quotient as a single-precision number; the square root
  and the subtraction are single-precision operations. The square root of a
  negative tensor element is NaN.
\<close>

definition prob_discard_of :: "real \<Rightarrow> (string, real) dict \<Rightarrow> error + (string, tfloat) dict" where
  "prob_discard_of threshold freqs =
     bindE (mapM (\<lambda>(word, freq).
                    bindE (py_truediv threshold freq)
                          (\<lambda>q. Inr (word, tround (tsub (Fin 1) (tround (tsqrt (float32 q)))))))
                 freqs)
           (\<lambda>kvs. Inr (dict_of kvs))"

text \<open>
  \<^verbatim>\<open>
  train_words = [vocab_to_int[word] for word in words
                 if torch.rand(1).item() > prob_discard[word]]
  \<close>
  One uniform draw per token, in order: \<open>us p\<close> is the draw of the token at
  position \<open>p\<close>: a real number in \<open>[0, 1)\<close>, compared exactly with the discard
  probability. The code of a token is looked up only when the token is kept.
\<close>

fun train_words_of ::
  "string list \<Rightarrow> (string, nat) dict \<Rightarrow> (string, tfloat) dict \<Rightarrow> (nat \<Rightarrow> real) \<Rightarrow> nat
     \<Rightarrow> error + nat list" where
  "train_words_of [] vocab_to_int prob_discard us p = Inr []"
| "train_words_of (word # rest) vocab_to_int prob_discard us p =
     bindE (dict_get prob_discard word) (\<lambda>pd.
       if tgt (Fin (us p)) pd then
         bindE (dict_get vocab_to_int word) (\<lambda>code.
           bindE (train_words_of rest vocab_to_int prob_discard us (Suc p)) (\<lambda>r.
             Inr (code # r)))
       else train_words_of rest vocab_to_int prob_discard us (Suc p))"

definition subsample_words ::
  "string list \<Rightarrow> (string, nat) dict \<Rightarrow> real \<Rightarrow> (nat \<Rightarrow> real)
     \<Rightarrow> error + (nat list \<times> (string, real) dict)" where
  "subsample_words words vocab_to_int threshold us =
     (let word_counts = Counter words;
          total_words = length words
      in bindE (freqs_of word_counts total_words) (\<lambda>freqs.
           bindE (prob_discard_of threshold freqs) (\<lambda>prob_discard.
             bindE (train_words_of words vocab_to_int prob_discard us 0) (\<lambda>train_words.
               Inr (train_words, freqs)))))"

text \<open>
  The two tables of \<open>subsample_words\<close> in closed form, for stating what the
  comprehensions compute: the frequency of every counted word, and the entry of
  the discard table for one entry of the frequency table.
\<close>

definition freq_table :: "string list \<Rightarrow> (string, real) dict" where
  "freq_table words = map (\<lambda>(w, c). (w, real c / real (length words))) (Counter words)"

definition discard_entry :: "real \<Rightarrow> string \<times> real \<Rightarrow> string \<times> tfloat" where
  "discard_entry threshold =
     (\<lambda>(word, freq). (word, tround (tsub (Fin 1) (tround (tsqrt (float32 (threshold / freq)))))))"

section \<open>Random integers\<close>

text \<open>
  The generator is the sequence \<open>g\<close> of its raw outputs and the position \<open>p\<close> of the
  next one. The bounds of \<^verbatim>\<open>torch.randint(low, high, (1,)).item()\<close> are signed 64-bit
  integers: the call raises an overflow error for a bound outside
  \<open>- 2 ^ 63 .. 2 ^ 63 - 1\<close>. It raises unless \<open>low < high\<close>, and otherwise reduces one
  raw output into \<open>low..high-1\<close>; every value of that interval is the reduction of
  some raw output.
\<close>

definition int64 :: "int \<Rightarrow> bool" where
  "int64 i = (- (2 ^ 63) \<le> i \<and> i < 2 ^ 63)"

type_synonym rng = "nat \<Rightarrow> nat"

definition torch_randint :: "int \<Rightarrow> int \<Rightarrow> rng \<Rightarrow> nat \<Rightarrow> error + (int \<times> nat)" where
  "torch_randint low high g p =
     (if int64 low \<and> int64 high then
        (if high \<le> low then Inl RuntimeError
         else Inr (low + int (g p mod nat (high - low)), Suc p))
      else Inl OverflowError)"


section \<open>Context Extractor\<close>

text \<open>
  \<^verbatim>\<open>
  rand_window_size = torch.randint(1, window_size + 1, (1,)).item()
  back_words = [words[idx - n] for n in range(rand_window_size, 0, -1) if (idx - n) >= 0]
  front_words = [words[idx + n] for n in range(1, rand_window_size + 1) if (idx + n) < len(words)]
  target_words = back_words + front_words
  \<close>
\<close>

definition back_words :: "'a list \<Rightarrow> int \<Rightarrow> int \<Rightarrow> error + 'a list" where
  "back_words words idx rand_window_size =
     bindE (py_range rand_window_size 0 (- 1)) (\<lambda>ns.
       mapM (\<lambda>n. py_index words (idx - n)) (filter (\<lambda>n. 0 \<le> idx - n) ns))"

definition front_words :: "'a list \<Rightarrow> int \<Rightarrow> int \<Rightarrow> error + 'a list" where
  "front_words words idx rand_window_size =
     bindE (py_range 1 (rand_window_size + 1) 1) (\<lambda>ns.
       mapM (\<lambda>n. py_index words (idx + n)) (filter (\<lambda>n. idx + n < int (length words)) ns))"

definition get_target :: "'a list \<Rightarrow> int \<Rightarrow> int \<Rightarrow> rng \<Rightarrow> nat \<Rightarrow> error + ('a list \<times> nat)" where
  "get_target words idx window_size g p =
     bindE (torch_randint 1 (window_size + 1) g p) (\<lambda>(rand_window_size, p').
       bindE (back_words words idx rand_window_size) (\<lambda>bw.
         bindE (front_words words idx rand_window_size) (\<lambda>fw.
           Inr (bw @ fw, p'))))"

section \<open>Batch Generator\<close>

text \<open>
  The body of the outer loop, for one chunk \<^verbatim>\<open>current_words\<close>:
  \<^verbatim>\<open>
  for word_index, current_word in enumerate(current_words):
      target_words = get_target(current_words, word_index, window_size)
      for target_word in target_words:
          inputs_list.append(current_word)
          targets_list.append(target_word)
  \<close>
\<close>

fun chunk_loop ::
  "'a list \<Rightarrow> (nat \<times> 'a) list \<Rightarrow> int \<Rightarrow> rng \<Rightarrow> nat \<Rightarrow> 'a list \<times> 'a list
     \<Rightarrow> error + (('a list \<times> 'a list) \<times> nat)" where
  "chunk_loop current_words [] window_size g p acc = Inr (acc, p)"
| "chunk_loop current_words ((word_index, current_word) # rest) window_size g p acc =
     bindE (get_target current_words (int word_index) window_size g p) (\<lambda>(target_words, p').
       chunk_loop current_words rest window_size g p'
         (fold (\<lambda>target_word (inputs_list, targets_list).
                  (inputs_list @ [current_word], targets_list @ [target_word]))
               target_words acc))"

definition batch_of :: "'a list \<Rightarrow> int \<Rightarrow> rng \<Rightarrow> nat \<Rightarrow> error + (('a list \<times> 'a list) \<times> nat)" where
  "batch_of current_words window_size g p =
     chunk_loop current_words (enumerate 0 current_words) window_size g p ([], [])"

text \<open>
  \<^verbatim>\<open>
  for idx in range(0, len(words), batch_size):
      current_words = words[idx:idx + batch_size]
      ...
      yield inputs, targets
  \<close>
  The generator is the list of the batches it yields when it is run to its end.
\<close>

fun batches_loop ::
  "'a list \<Rightarrow> int \<Rightarrow> int \<Rightarrow> rng \<Rightarrow> int list \<Rightarrow> nat
     \<Rightarrow> error + (('a list \<times> 'a list) list \<times> nat)" where
  "batches_loop words batch_size window_size g [] p = Inr ([], p)"
| "batches_loop words batch_size window_size g (idx # rest) p =
     bindE (batch_of (py_slice words idx (idx + batch_size)) window_size g p) (\<lambda>(b, p').
       bindE (batches_loop words batch_size window_size g rest p') (\<lambda>(bs, p'').
         Inr (b # bs, p'')))"

definition get_batches ::
  "'a list \<Rightarrow> int \<Rightarrow> int \<Rightarrow> rng \<Rightarrow> nat \<Rightarrow> error + (('a list \<times> 'a list) list \<times> nat)" where
  "get_batches words batch_size window_size g p =
     bindE (py_range 0 (int (length words)) batch_size) (\<lambda>idxs.
       batches_loop words batch_size window_size g idxs p)"

section \<open>Similarity Evaluator\<close>








section \<open>Properties of the Vocabulary Builder\<close>

lemma map_of_counter_add:
  "map_of (counter_add w d) = (map_of d)(w \<mapsto> (case map_of d w of None \<Rightarrow> 1 | Some c \<Rightarrow> c + 1))"
  by (induction w d rule: counter_add.induct) (auto simp: fun_eq_iff)

lemma keys_counter_add: "fst ` set (counter_add w d) = insert w (fst ` set d)"
  by (induction w d rule: counter_add.induct) auto

lemma distinct_counter_add:
  "distinct (map fst d) \<Longrightarrow> distinct (map fst (counter_add w d))"
  by (induction w d rule: counter_add.induct) (auto simp: keys_counter_add)

lemma keys_fold_counter_add:
  "fst ` set (fold counter_add ws acc) = set ws \<union> fst ` set acc"
  by (induction ws arbitrary: acc) (auto simp: keys_counter_add)

lemma distinct_fold_counter_add:
  "distinct (map fst acc) \<Longrightarrow> distinct (map fst (fold counter_add ws acc))"
  by (induction ws arbitrary: acc) (auto simp: distinct_counter_add)

lemma map_of_fold_counter_add:
  "map_of (fold counter_add ws acc) w =
     (if w \<in> set ws
      then Some (count_list ws w + (case map_of acc w of None \<Rightarrow> 0 | Some c \<Rightarrow> c))
      else map_of acc w)"
proof (induction ws arbitrary: acc)
  case Nil
  show ?case by simp
next
  case (Cons a ws)
  show ?case
    by (simp add: Cons.IH map_of_counter_add split: option.splits)
qed

lemma keys_Counter: "fst ` set (Counter ws) = set ws"
  by (simp add: Counter_def keys_fold_counter_add)

lemma distinct_Counter: "distinct (map fst (Counter ws))"
  by (simp add: Counter_def distinct_fold_counter_add)

lemma map_of_Counter:
  "map_of (Counter ws) w = (if w \<in> set ws then Some (count_list ws w) else None)"
  by (simp add: Counter_def map_of_fold_counter_add)

lemma Counter_entry: "(w, c) \<in> set (Counter ws) \<Longrightarrow> w \<in> set ws \<and> c = count_list ws w"
  using map_of_Counter[of ws w] map_of_eq_Some_iff[OF distinct_Counter[of ws], of w c]
  by (auto split: if_splits)

lemma update_fresh: "k \<notin> fst ` set al \<Longrightarrow> AList.update k v al = al @ [(k, v)]"
  by (induction al) auto

lemma fold_update_distinct:
  "distinct (map fst (acc @ kvs)) \<Longrightarrow>
   fold (\<lambda>(k, v) d. AList.update k v d) kvs acc = acc @ kvs"
proof (induction kvs arbitrary: acc)
  case Nil
  show ?case by simp
next
  case (Cons kv kvs)
  obtain k v where kv: "kv = (k, v)" by (cases kv)
  from Cons.prems have fresh: "k \<notin> fst ` set acc" by (auto simp: kv)
  from Cons.prems have d: "distinct (map fst ((acc @ [(k, v)]) @ kvs))" by (simp add: kv)
  show ?case using Cons.IH[OF d] by (simp add: kv update_fresh[OF fresh])
qed

lemma dict_of_distinct: "distinct (map fst kvs) \<Longrightarrow> dict_of kvs = kvs"
  using fold_update_distinct[of "[]" kvs] by (simp add: dict_of_def)

lemma distinct_most_common: "distinct (map fst (most_common (Counter words)))"
  using distinct_Counter[of words] by (simp add: most_common_def distinct_map)

lemma set_most_common: "set (map fst (most_common (Counter words))) = set words"
  using keys_Counter[of words] by (simp add: most_common_def)

lemma most_common_entry:
  "(w, c) \<in> set (most_common (Counter words)) \<Longrightarrow> w \<in> set words \<and> c = count_list words w"
  using Counter_entry[of w c words] by (simp add: most_common_def)

lemma most_common_descending:
  assumes "i \<le> j" "j < length (most_common (Counter words))"
  shows "snd (most_common (Counter words) ! j) \<le> snd (most_common (Counter words) ! i)"
proof -
  let ?sv = "most_common (Counter words)"
  let ?key = "\<lambda>(w, c). - int c"
  have "sorted (map ?key ?sv)" by (simp add: most_common_def)
  then have "map ?key ?sv ! i \<le> map ?key ?sv ! j"
    using assms by (simp add: sorted_iff_nth_mono)
  then show ?thesis using assms by (simp add: case_prod_beta)
qed

lemma enumerate_fst_snd:
  "map (\<lambda>(integer, word). (integer, fst word)) (enumerate 0 sv) = zip [0..<length sv] (map fst sv)"
  "map (\<lambda>(integer, word). (fst word, integer)) (enumerate 0 sv) = zip (map fst sv) [0..<length sv]"
  by (rule nth_equalityI; simp add: nth_enumerate_eq)+

lemma create_lookup_tables_zip:
  "create_lookup_tables words =
     (zip (map fst (most_common (Counter words))) [0..<length (most_common (Counter words))],
      zip [0..<length (most_common (Counter words))] (map fst (most_common (Counter words))))"
  by (simp add: create_lookup_tables_def Let_def enumerate_fst_snd dict_of_distinct distinct_most_common)

lemma length_most_common: "length (most_common (Counter words)) = card (set words)"
  using distinct_card[OF distinct_most_common[of words]] set_most_common[of words] by simp

lemma dict_get_Inr_iff: "dict_get d k = Inr v \<longleftrightarrow> map_of d k = Some v"
  by (simp add: dict_get_def split: option.splits)

lemma map_of_zip_upt_left:
  "map_of (zip [0..<length ws] ws) i = Some w \<longleftrightarrow> i < length ws \<and> ws ! i = w"
proof -
  have "distinct (map fst (zip [0..<length ws] ws))" by simp
  then have "map_of (zip [0..<length ws] ws) i = Some w \<longleftrightarrow> (i, w) \<in> set (zip [0..<length ws] ws)"
    by (rule map_of_eq_Some_iff)
  also have "\<dots> \<longleftrightarrow> i < length ws \<and> ws ! i = w"
  proof
    assume "(i, w) \<in> set (zip [0..<length ws] ws)"
    then obtain k where "k < length ws" "[0..<length ws] ! k = i" "ws ! k = w"
      by (auto simp: in_set_zip)
    then show "i < length ws \<and> ws ! i = w" by simp
  next
    assume "i < length ws \<and> ws ! i = w"
    then show "(i, w) \<in> set (zip [0..<length ws] ws)"
      by (auto simp: in_set_zip intro!: exI[of _ i])
  qed
  finally show ?thesis .
qed

lemma map_of_zip_upt_right:
  assumes "distinct ws"
  shows "map_of (zip ws [0..<length ws]) w = Some i \<longleftrightarrow> i < length ws \<and> ws ! i = w"
proof -
  have "distinct (map fst (zip ws [0..<length ws]))" using assms by simp
  then have "map_of (zip ws [0..<length ws]) w = Some i \<longleftrightarrow> (w, i) \<in> set (zip ws [0..<length ws])"
    by (rule map_of_eq_Some_iff)
  also have "\<dots> \<longleftrightarrow> i < length ws \<and> ws ! i = w"
    by (fastforce simp: in_set_zip)
  finally show ?thesis .
qed

lemma count_list_distinct: "distinct xs \<Longrightarrow> x \<in> set xs \<Longrightarrow> count_list xs x = 1"
  by (induction xs) (auto simp: count_list_0_iff)

text \<open>
  Claim C1. For every non-empty token list the two tables returned by
  \<open>create_lookup_tables\<close> are exact inverses: every word \<open>w\<close> of the list has a code
  \<open>i\<close> in \<open>vocab_to_int\<close> and \<open>int_to_vocab\<close> maps \<open>i\<close> back to \<open>w\<close>; an entry
  \<open>w \<mapsto> i\<close> is in one table exactly when \<open>i \<mapsto> w\<close> is in the other; every word of
  the list occurs exactly once among the keys of \<open>vocab_to_int\<close>, and the keys are
  exactly the words of the list.
\<close>

theorem create_lookup_tables_inverse:
  assumes "words \<noteq> []"
    and "create_lookup_tables words = (vocab_to_int, int_to_vocab)"
  shows "(\<forall>w \<in> set words. \<exists>i. dict_get vocab_to_int w = Inr i \<and> dict_get int_to_vocab i = Inr w
             \<and> count_list (map fst vocab_to_int) w = 1)
       \<and> (\<forall>w i. dict_get vocab_to_int w = Inr i \<longleftrightarrow> dict_get int_to_vocab i = Inr w)
       \<and> set (map fst vocab_to_int) = set words"
proof -
  let ?ws = "map fst (most_common (Counter words))"
  have d: "distinct ?ws" by (rule distinct_most_common)
  have s: "set ?ws = set words" by (rule set_most_common)
  have v: "vocab_to_int = zip ?ws [0..<length ?ws]"
    and t: "int_to_vocab = zip [0..<length ?ws] ?ws"
    using assms(2) by (simp_all add: create_lookup_tables_zip)
  have keys: "map fst vocab_to_int = ?ws" by (simp add: v)
  have inv: "dict_get vocab_to_int w = Inr i \<longleftrightarrow> dict_get int_to_vocab i = Inr w" for w i
    unfolding dict_get_Inr_iff v t
    using map_of_zip_upt_right[OF d, of w i] map_of_zip_upt_left[of ?ws i w] by simp
  have fwd: "\<exists>i. dict_get vocab_to_int w = Inr i \<and> dict_get int_to_vocab i = Inr w
      \<and> count_list (map fst vocab_to_int) w = 1" if "w \<in> set words" for w
  proof -
    from that s have "w \<in> set ?ws" by simp
    then obtain i where i: "i < length ?ws" "?ws ! i = w" by (auto simp: in_set_conv_nth)
    have "dict_get vocab_to_int w = Inr i"
      unfolding dict_get_Inr_iff v using map_of_zip_upt_right[OF d, of w i] i by simp
    moreover from this have "dict_get int_to_vocab i = Inr w" by (simp add: inv)
    moreover have "count_list (map fst vocab_to_int) w = 1"
      unfolding keys using d \<open>w \<in> set ?ws\<close> by (rule count_list_distinct)
    ultimately show ?thesis by blast
  qed
  show ?thesis using fwd inv keys s by simp
qed

theorem create_lookup_tables_inverse_witness:
  "[''b'', ''a'', ''c'', ''a''] \<noteq> []
   \<and> create_lookup_tables [''b'', ''a'', ''c'', ''a''] =
       ([(''a'', 0), (''b'', 1), (''c'', 2)], [(0, ''a''), (1, ''b''), (2, ''c'')])
   \<and> dict_get [(''a'', 0), (''b'', 1), (''c'', 2)] ''c'' = Inr (2::nat)
   \<and> dict_get [(0, ''a''), (1, ''b''), (2, ''c'')] (2::nat) = Inr ''c''
   \<and> set (map fst [(''a'', 0::nat), (''b'', 1), (''c'', 2)]) = set [''b'', ''a'', ''c'', ''a'']"
proof -
  have ne: "[''b'', ''a'', ''c'', ''a''] \<noteq> []" by simp
  have eq: "create_lookup_tables [''b'', ''a'', ''c'', ''a''] =
       ([(''a'', 0), (''b'', 1), (''c'', 2)], [(0, ''a''), (1, ''b''), (2, ''c'')])"
    by (simp add: create_lookup_tables_def Counter_def most_common_def dict_of_def enumerate_eq_zip)
  have g1: "dict_get [(''a'', 0), (''b'', 1), (''c'', 2)] ''c'' = Inr (2::nat)"
    by (simp add: dict_get_def)
  from create_lookup_tables_inverse[OF ne eq] g1 ne eq show ?thesis by simp
qed

text \<open>
  Claim C2 says that \<open>create_lookup_tables\<close> fails with an \<open>EmptyInputError\<close> on the
  empty token sequence and returns no value. The function has no check of its input
  and no statement that raises: on the empty sequence the counter, the sorted
  vocabulary and both comprehensions are empty, and the call returns two empty
  tables.
\<close>

theorem create_lookup_tables_empty_returns: "create_lookup_tables [] = ([], [])"
  by (simp add: create_lookup_tables_def Counter_def most_common_def dict_of_def enumerate_eq_zip)

text \<open>
  Claim C2, as amended. \<open>create_lookup_tables\<close> raises no error on the empty token
  sequence: it returns the pair of empty tables, and the empty sequence is the only
  input on which it does.
\<close>

theorem create_lookup_tables_empty_iff:
  "create_lookup_tables words = ([], []) \<longleftrightarrow> words = []"
proof
  assume "create_lookup_tables words = ([], [])"
  then have "length (most_common (Counter words)) = 0"
    by (simp add: create_lookup_tables_zip)
  then have "card (set words) = 0" by (simp add: length_most_common)
  then show "words = []" by simp
next
  assume "words = []"
  then show "create_lookup_tables words = ([], [])"
    by (simp add: create_lookup_tables_def Counter_def most_common_def dict_of_def enumerate_eq_zip)
qed

lemma most_common_nth_count:
  assumes "j < length (most_common (Counter words))"
  shows "count_list words (fst (most_common (Counter words) ! j)) = snd (most_common (Counter words) ! j)"
    and "fst (most_common (Counter words) ! j) \<in> set words"
proof -
  have "most_common (Counter words) ! j \<in> set (most_common (Counter words))"
    using assms by simp
  then have "(fst (most_common (Counter words) ! j), snd (most_common (Counter words) ! j))
      \<in> set (most_common (Counter words))" by simp
  from most_common_entry[OF this]
  show "count_list words (fst (most_common (Counter words) ! j)) = snd (most_common (Counter words) ! j)"
    and "fst (most_common (Counter words) ! j) \<in> set words" by simp_all
qed

text \<open>
  Claim C5. In the tables returned for a non-empty token list, index \<open>0\<close> maps to a
  word whose occurrence count in the input is maximal; the indices are the
  consecutive integers \<open>0, 1, \<dots>\<close> up to the number of distinct words; and the words
  stand in descending order of their counts: a smaller index never has a smaller
  count. \<open>vocab_to_int\<close> assigns the same indices to the same words.
\<close>

theorem create_lookup_tables_frequency_order:
  assumes "words \<noteq> []"
    and "create_lookup_tables words = (vocab_to_int, int_to_vocab)"
  shows "(\<exists>w0. dict_get int_to_vocab 0 = Inr w0 \<and> w0 \<in> set words
            \<and> (\<forall>w. count_list words w \<le> count_list words w0))
       \<and> map fst int_to_vocab = [0..<card (set words)]
       \<and> (\<forall>i j. i \<le> j \<and> j < card (set words) \<longrightarrow>
             count_list words (snd (int_to_vocab ! j)) \<le> count_list words (snd (int_to_vocab ! i)))
       \<and> map snd vocab_to_int = [0..<card (set words)]
       \<and> map fst vocab_to_int = map snd int_to_vocab"
proof -
  let ?sv = "most_common (Counter words)"
  let ?n = "length ?sv"
  have n: "?n = card (set words)" by (rule length_most_common)
  have pos: "0 < ?n" using assms(1) by (simp add: n card_gt_0_iff)
  have v: "vocab_to_int = zip (map fst ?sv) [0..<?n]"
    and t: "int_to_vocab = zip [0..<?n] (map fst ?sv)"
    using assms(2) by (simp_all add: create_lookup_tables_zip)
  have nth_t: "snd (int_to_vocab ! j) = fst (?sv ! j)" if "j < ?n" for j
    using that by (simp add: t)
  have desc: "count_list words (snd (int_to_vocab ! j)) \<le> count_list words (snd (int_to_vocab ! i))"
    if "i \<le> j" "j < ?n" for i j
  proof -
    from that have "i < ?n" by simp
    then show ?thesis
      using most_common_descending[OF that] that
      by (simp add: nth_t most_common_nth_count(1))
  qed
  define w0 where "w0 = fst (?sv ! 0)"
  have g0: "dict_get int_to_vocab 0 = Inr w0"
    unfolding dict_get_Inr_iff t w0_def
    using map_of_zip_upt_left[of "map fst ?sv" 0 "fst (?sv ! 0)"] pos by simp
  have in0: "w0 \<in> set words"
    unfolding w0_def using most_common_nth_count(2)[OF pos] .
  have max0: "count_list words w \<le> count_list words w0" for w
  proof (cases "w \<in> set words")
    case False
    then show ?thesis by (simp add: count_list_0_iff)
  next
    case True
    then have "w \<in> set (map fst ?sv)" by (simp only: set_most_common)
    then obtain k where k: "k < ?n" "fst (?sv ! k) = w"
      by (auto simp: in_set_conv_nth)
    have "snd (?sv ! k) \<le> snd (?sv ! 0)"
      using most_common_descending[of 0 k words] k(1) by simp
    then show ?thesis
      using most_common_nth_count(1)[OF k(1)] most_common_nth_count(1)[OF pos]
      by (simp add: k(2) w0_def)
  qed
  have "map fst int_to_vocab = [0..<card (set words)]" by (simp add: t n[symmetric])
  moreover have "map snd vocab_to_int = [0..<card (set words)]" by (simp add: v n[symmetric])
  moreover have "map fst vocab_to_int = map snd int_to_vocab" by (simp add: v t)
  ultimately show ?thesis using g0 in0 max0 desc n by auto
qed

theorem create_lookup_tables_frequency_order_witness:
  "[''b'', ''a'', ''c'', ''a''] \<noteq> []
   \<and> create_lookup_tables [''b'', ''a'', ''c'', ''a''] =
       ([(''a'', 0), (''b'', 1), (''c'', 2)], [(0, ''a''), (1, ''b''), (2, ''c'')])
   \<and> dict_get [(0::nat, ''a''), (1, ''b''), (2, ''c'')] 0 = Inr ''a''
   \<and> count_list [''b'', ''a'', ''c'', ''a''] ''a'' = 2
   \<and> map fst [(0::nat, ''a''), (1, ''b''), (2, ''c'')] = [0..<card (set [''b'', ''a'', ''c'', ''a''])]"
proof -
  have ne: "[''b'', ''a'', ''c'', ''a''] \<noteq> []" by simp
  have eq: "create_lookup_tables [''b'', ''a'', ''c'', ''a''] =
       ([(''a'', 0), (''b'', 1), (''c'', 2)], [(0, ''a''), (1, ''b''), (2, ''c'')])"
    by (simp add: create_lookup_tables_def Counter_def most_common_def dict_of_def enumerate_eq_zip)
  have g: "dict_get [(0::nat, ''a''), (1, ''b''), (2, ''c'')] 0 = Inr ''a''"
    by (simp add: dict_get_def)
  have c: "count_list [''b'', ''a'', ''c'', ''a''] ''a'' = 2" by simp
  from create_lookup_tables_frequency_order[OF ne eq]
  have m: "map fst [(0::nat, ''a''), (1, ''b''), (2, ''c'')] = [0..<card (set [''b'', ''a'', ''c'', ''a''])]"
    by (elim conjE)
  show ?thesis by (intro conjI) (rule ne eq g c m)+
qed

section \<open>Properties of the Context Extractor and the Batch Generator\<close>

lemma bindE_simps [simp]:
  "bindE (Inl e) f = Inl e"
  "bindE (Inr x) f = f x"
  by (simp_all add: bindE_def)

lemma mapM_Inr:
  "(\<And>x. x \<in> set xs \<Longrightarrow> f x = Inr (h x)) \<Longrightarrow> mapM f xs = Inr (map h xs)"
  by (induction xs) auto

lemma py_range_down:
  "py_range (int r) 0 (- 1) = Inr (map (\<lambda>k. int r - int k) [0..<r])"
  by (simp add: py_range_def)

lemma py_range_up:
  "py_range 1 (int r + 1) 1 = Inr (map (\<lambda>k. 1 + int k) [0..<r])"
  by (simp add: py_range_def)

lemma filter_upt_less: "filter (\<lambda>k. k < m) [a..<b] = [a..<min b m]"
  by (induction b) auto

lemma filter_upt_ge: "filter (\<lambda>k. m \<le> k) [a..<b] = [max a m..<b]"
  by (induction b) (auto simp: max_def)

lemma back_words_nat:
  assumes "idx < length words"
  shows "back_words words (int idx) (int r) = Inr (drop (idx - r) (take idx words))"
proof -
  let ?ks = "[r - min r idx..<r]"
  have f: "filter (\<lambda>n. 0 \<le> int idx - n) (map (\<lambda>k. int r - int k) [0..<r])
      = map (\<lambda>k. int r - int k) ?ks"
  proof -
    have "filter ((\<lambda>n. 0 \<le> int idx - n) \<circ> (\<lambda>k. int r - int k)) [0..<r]
        = filter (\<lambda>k. r - min r idx \<le> k) [0..<r]"
      by (rule filter_cong) auto
    then show ?thesis by (simp add: filter_map filter_upt_ge)
  qed
  have m: "mapM (\<lambda>n. py_index words (int idx - n)) (map (\<lambda>k. int r - int k) ?ks)
      = Inr (map (\<lambda>n. words ! nat (int idx - n)) (map (\<lambda>k. int r - int k) ?ks))"
    using assms by (intro mapM_Inr) (auto simp: py_index_def Let_def)
  have e: "map (\<lambda>n. words ! nat (int idx - n)) (map (\<lambda>k. int r - int k) ?ks)
      = drop (idx - r) (take idx words)"
  proof (rule nth_equalityI)
    show "length (map (\<lambda>n. words ! nat (int idx - n)) (map (\<lambda>k. int r - int k) ?ks))
        = length (drop (idx - r) (take idx words))"
      using assms by auto
  next
    fix j assume "j < length (map (\<lambda>n. words ! nat (int idx - n)) (map (\<lambda>k. int r - int k) ?ks))"
    then have j: "j < min r idx" by auto
    have "nat (int idx - (int r - int (r - min r idx + j))) = idx - r + j"
      using j by (auto simp: min_def)
    then show "map (\<lambda>n. words ! nat (int idx - n)) (map (\<lambda>k. int r - int k) ?ks) ! j
        = drop (idx - r) (take idx words) ! j"
      using j assms by (auto simp: min_def)
  qed
  show ?thesis
    by (simp only: back_words_def py_range_down bindE_simps f m e)
qed

lemma front_words_nat:
  assumes "idx < length words"
  shows "front_words words (int idx) (int r) = Inr (take r (drop (Suc idx) words))"
proof -
  let ?ks = "[0..<min r (length words - Suc idx)]"
  have f: "filter (\<lambda>n. int idx + n < int (length words)) (map (\<lambda>k. 1 + int k) [0..<r])
      = map (\<lambda>k. 1 + int k) ?ks"
  proof -
    have "filter ((\<lambda>n. int idx + n < int (length words)) \<circ> (\<lambda>k. 1 + int k)) [0..<r]
        = filter (\<lambda>k. k < length words - Suc idx) [0..<r]"
      by (rule filter_cong) auto
    then show ?thesis by (simp add: filter_map filter_upt_less)
  qed
  have m: "mapM (\<lambda>n. py_index words (int idx + n)) (map (\<lambda>k. 1 + int k) ?ks)
      = Inr (map (\<lambda>n. words ! nat (int idx + n)) (map (\<lambda>k. 1 + int k) ?ks))"
    using assms by (intro mapM_Inr) (auto simp: py_index_def Let_def)
  have e: "map (\<lambda>n. words ! nat (int idx + n)) (map (\<lambda>k. 1 + int k) ?ks)
      = take r (drop (Suc idx) words)"
  proof (rule nth_equalityI)
    show "length (map (\<lambda>n. words ! nat (int idx + n)) (map (\<lambda>k. 1 + int k) ?ks))
        = length (take r (drop (Suc idx) words))"
      by auto
  next
    fix j assume "j < length (map (\<lambda>n. words ! nat (int idx + n)) (map (\<lambda>k. 1 + int k) ?ks))"
    then have j: "j < r" "j < length words - Suc idx" by auto
    have "nat (int idx + (1 + int j)) = Suc idx + j" by simp
    then show "map (\<lambda>n. words ! nat (int idx + n)) (map (\<lambda>k. 1 + int k) ?ks) ! j
        = take r (drop (Suc idx) words) ! j"
      using j by simp
  qed
  show ?thesis
    by (simp only: front_words_def py_range_up bindE_simps f m e)
qed

lemma torch_randint_window:
  assumes "1 \<le> W" "W < 2 ^ 63 - 1"
  shows "torch_randint 1 (W + 1) g p = Inr (int (Suc (g p mod nat W)), Suc p)"
  using assms by (simp add: torch_randint_def int64_def)

lemma torch_randint_overflow:
  assumes "2 ^ 63 - 1 \<le> W"
  shows "torch_randint 1 (W + 1) g p = Inl OverflowError"
  using assms by (simp add: torch_randint_def int64_def)

lemma get_target_overflow:
  assumes "2 ^ 63 - 1 \<le> W"
  shows "get_target words idx W g p = Inl OverflowError"
  by (simp only: get_target_def torch_randint_overflow[OF assms] bindE_simps)

lemma get_target_nat:
  assumes "idx < length words" "1 \<le> W" "W < 2 ^ 63 - 1"
  shows "get_target words (int idx) W g p =
     Inr (drop (idx - Suc (g p mod nat W)) (take idx words)
            @ take (Suc (g p mod nat W)) (drop (Suc idx) words), Suc p)"
  by (simp only: get_target_def torch_randint_window[OF assms(2,3)] bindE_simps prod.case
        back_words_nat[OF assms(1)] front_words_nat[OF assms(1)])

lemma take_drop_one_upt:
  "take r (drop (Suc 0) words) = map (\<lambda>q. words ! q) [1..<min (Suc r) (length words)]"
  by (rule nth_equalityI) auto

lemma get_target_at_start_in_range:
  assumes "words \<noteq> []" and "1 \<le> W" and "W < 2 ^ 63 - 1"
  shows "\<exists>r. torch_randint 1 (W + 1) g p = Inr (int r, Suc p) \<and> 1 \<le> r \<and> int r \<le> W
           \<and> back_words words 0 (int r) = Inr []
           \<and> get_target words 0 W g p =
               Inr (map (\<lambda>q. words ! q) [1..<min (Suc r) (length words)], Suc p)
           \<and> (\<forall>q \<in> set [1..<min (Suc r) (length words)]. 1 \<le> q \<and> int q \<le> W \<and> q < length words)"
proof -
  let ?r = "Suc (g p mod nat W)"
  have len: "0 < length words" using assms(1) by simp
  have r: "int ?r \<le> W"
  proof -
    have "g p mod nat W < nat W" using assms(2) by simp
    then show ?thesis by linarith
  qed
  have b: "back_words words 0 (int ?r) = Inr []"
    using back_words_nat[OF len, of ?r] by simp
  have t: "get_target words 0 W g p =
      Inr (map (\<lambda>q. words ! q) [1..<min (Suc ?r) (length words)], Suc p)"
  proof -
    have "get_target words 0 W g p = Inr (take ?r (drop (Suc 0) words), Suc p)"
      using get_target_nat[OF len assms(2,3), of g p] by simp
    then show ?thesis by (simp only: take_drop_one_upt)
  qed
  have q: "\<forall>q \<in> set [1..<min (Suc ?r) (length words)]. 1 \<le> q \<and> int q \<le> W \<and> q < length words"
    using r by auto
  have one: "1 \<le> ?r" by simp
  show ?thesis
    by (rule exI[of _ ?r]) (intro conjI torch_randint_window[OF assms(2,3)] one r b t q)
qed

text \<open>
  Claim C6. For a non-empty word list and a window size \<open>W \<ge> 1\<close>, whenever
  \<open>get_target\<close> at \<open>idx = 0\<close> returns, it has drawn a window \<open>r\<close> with
  \<open>1 \<le> r \<le> W\<close>, its list of back-words is empty, and the words it returns are the
  words at the positions \<open>1, \<dots>, min r (len - 1)\<close>: each of them at a distance of at
  least \<open>1\<close> and at most \<open>W\<close> from the target, and inside the list. The call returns
  for every \<open>W\<close> up to \<open>2 ^ 63 - 2\<close>; from \<open>2 ^ 63 - 1\<close> on the bound \<open>W + 1\<close> of the
  random draw does not fit 64 bits and the call raises.
\<close>

theorem get_target_at_start:
  assumes "words \<noteq> []" and "1 \<le> W"
  shows "(W < 2 ^ 63 - 1 \<longrightarrow> (\<exists>tw. get_target words 0 W g p = Inr (tw, Suc p)))
       \<and> (\<forall>tw p'. get_target words 0 W g p = Inr (tw, p') \<longrightarrow>
            (\<exists>r. torch_randint 1 (W + 1) g p = Inr (int r, p') \<and> 1 \<le> r \<and> int r \<le> W
               \<and> back_words words 0 (int r) = Inr []
               \<and> tw = map (\<lambda>q. words ! q) [1..<min (Suc r) (length words)]
               \<and> (\<forall>q \<in> set [1..<min (Suc r) (length words)].
                     1 \<le> q \<and> int q \<le> W \<and> q < length words)))"
proof (intro conjI impI allI)
  assume "W < 2 ^ 63 - 1"
  from get_target_at_start_in_range[OF assms this, of g p]
  show "\<exists>tw. get_target words 0 W g p = Inr (tw, Suc p)" by blast
next
  fix tw p'
  assume ret: "get_target words 0 W g p = Inr (tw, p')"
  have w: "W < 2 ^ 63 - 1"
  proof (rule ccontr)
    assume "\<not> W < 2 ^ 63 - 1"
    then have "2 ^ 63 - 1 \<le> W" by simp
    from get_target_overflow[OF this, of words 0 g p] ret show False by simp
  qed
  from get_target_at_start_in_range[OF assms w, of g p]
  obtain r where r: "torch_randint 1 (W + 1) g p = Inr (int r, Suc p)" "1 \<le> r" "int r \<le> W"
    "back_words words 0 (int r) = Inr []"
    "get_target words 0 W g p = Inr (map (\<lambda>q. words ! q) [1..<min (Suc r) (length words)], Suc p)"
    "\<forall>q \<in> set [1..<min (Suc r) (length words)]. 1 \<le> q \<and> int q \<le> W \<and> q < length words"
    by blast
  from r(5) ret have e: "tw = map (\<lambda>q. words ! q) [1..<min (Suc r) (length words)]" "p' = Suc p"
    by simp_all
  show "\<exists>r. torch_randint 1 (W + 1) g p = Inr (int r, p') \<and> 1 \<le> r \<and> int r \<le> W
               \<and> back_words words 0 (int r) = Inr []
               \<and> tw = map (\<lambda>q. words ! q) [1..<min (Suc r) (length words)]
               \<and> (\<forall>q \<in> set [1..<min (Suc r) (length words)].
                     1 \<le> q \<and> int q \<le> W \<and> q < length words)"
    using r(1,2,3,4,6) e by blast
qed

theorem get_target_at_start_witness:
  "[''a'', ''b'', ''c'', ''d''] \<noteq> [] \<and> (1::int) \<le> 3 \<and> (3::int) < 2 ^ 63 - 1
   \<and> get_target [''a'', ''b'', ''c'', ''d''] 0 3 (\<lambda>k. 7) 0 = Inr ([''b'', ''c''], Suc 0)
   \<and> back_words [''a'', ''b'', ''c'', ''d''] 0 2 = Inr []"
proof -
  have ne: "[''a'', ''b'', ''c'', ''d''] \<noteq> []" by simp
  have w: "(1::int) \<le> 3" by simp
  have w': "(3::int) < 2 ^ 63 - 1" by simp
  note t = get_target_at_start[OF ne w, of "\<lambda>k. 7" 0]
  from t w' obtain tw where tw: "get_target [''a'', ''b'', ''c'', ''d''] 0 3 (\<lambda>k. 7) 0 = Inr (tw, Suc 0)"
    by blast
  with t obtain r where r: "torch_randint 1 (3 + 1) (\<lambda>k. 7) 0 = Inr (int r, Suc 0)"
    and b: "back_words [''a'', ''b'', ''c'', ''d''] 0 (int r) = Inr []"
    and e: "tw = map (\<lambda>q. [''a'', ''b'', ''c'', ''d''] ! q) [1..<min (Suc r) (length [''a'', ''b'', ''c'', ''d''])]"
    by blast
  from r have r2: "r = 2" by (simp add: torch_randint_def int64_def)
  have "[1..<min (Suc 2) (length [''a'', ''b'', ''c'', ''d''])] = [1, 2]"
    by (simp add: upt_conv_Cons)
  with e have "tw = [''b'', ''c'']" by (simp add: r2)
  with tw b ne w w' show ?thesis by (simp add: r2)
qed

lemma drop_take_last:
  assumes "0 < idx" "idx < length words"
  shows "drop (idx - Suc 0) (take idx words) = [words ! (idx - 1)]"
proof -
  from assms obtain k where k: "idx = Suc k" by (cases idx) auto
  with assms have "take idx words = take k words @ [words ! k]"
    by (simp add: take_Suc_conv_app_nth)
  then show ?thesis using k assms by simp
qed

lemma take_one_drop:
  "take (Suc 0) (drop k words) = (if k < length words then [words ! k] else [])"
  by (simp add: take_Suc_conv_app_nth)

text \<open>
  Claim C10. With \<open>window_size = 1\<close> the result of \<open>get_target\<close> does not depend on
  the random generator: for a list of length at least \<open>2\<close> and a valid index, the
  call returns \<open>[words[idx-1]]\<close> (left out when \<open>idx = 0\<close>) followed by
  \<open>[words[idx+1]]\<close> (left out when \<open>idx = len - 1\<close>), whatever the generator \<open>g\<close>
  and its position \<open>p\<close>; so two calls, on any two generator states, return the same
  words.
\<close>

theorem get_target_window_one:
  assumes "2 \<le> length words" and "idx < length words"
  shows "get_target words (int idx) 1 g p =
           Inr ((if idx = 0 then [] else [words ! (idx - 1)])
                 @ (if idx = length words - 1 then [] else [words ! (idx + 1)]), Suc p)
       \<and> get_target words (int idx) 1 g' p' =
           Inr ((if idx = 0 then [] else [words ! (idx - 1)])
                 @ (if idx = length words - 1 then [] else [words ! (idx + 1)]), Suc p')"
proof -
  have "get_target words (int idx) 1 h q =
           Inr ((if idx = 0 then [] else [words ! (idx - 1)])
                 @ (if idx = length words - 1 then [] else [words ! (idx + 1)]), Suc q)" for h q
  proof -
    have b: "drop (idx - Suc 0) (take idx words) = (if idx = 0 then [] else [words ! (idx - 1)])"
      using drop_take_last[of idx words] assms(2) by simp
    have f: "take (Suc 0) (drop (Suc idx) words) =
        (if idx = length words - 1 then [] else [words ! (idx + 1)])"
      using assms(2) by (auto simp: take_one_drop)
    show ?thesis
      using get_target_nat[OF assms(2), of 1 h q] by (simp add: b f)
  qed
  then show ?thesis by simp
qed

theorem get_target_window_one_witness:
  "2 \<le> length [''a'', ''b'', ''c'', ''d''] \<and> (1::nat) < length [''a'', ''b'', ''c'', ''d'']
   \<and> get_target [''a'', ''b'', ''c'', ''d''] 1 1 (\<lambda>k. 0) 0 = Inr ([''a'', ''c''], Suc 0)
   \<and> get_target [''a'', ''b'', ''c'', ''d''] 1 1 (\<lambda>k. k + 5) 3 = Inr ([''a'', ''c''], Suc 3)"
proof -
  have l: "2 \<le> length [''a'', ''b'', ''c'', ''d'']" by simp
  have i: "(1::nat) < length [''a'', ''b'', ''c'', ''d'']" by simp
  from get_target_window_one[OF l i, of "\<lambda>k. 0" 0 "\<lambda>k. k + 5" 3] l i
  show ?thesis by simp
qed

lemma chunk_loop_ok:
  assumes "1 \<le> W" and "W < 2 ^ 63 - 1"
    and "\<And>i w. (i, w) \<in> set items \<Longrightarrow> i < length cw"
  shows "\<exists>b. chunk_loop cw items W g p acc = Inr (b, p + length items)"
  using assms(3)
proof (induction items arbitrary: p acc)
  case Nil
  show ?case by simp
next
  case (Cons it items)
  obtain i w where it: "it = (i, w)" by (cases it)
  have i: "i < length cw" using Cons.prems[of i w] by (simp add: it)
  obtain tw where tw: "get_target cw (int i) W g p = Inr (tw, Suc p)"
    using get_target_nat[OF i assms(1,2)] by blast
  have "\<exists>b. chunk_loop cw items W g (Suc p) acc' = Inr (b, Suc p + length items)" for acc'
    using Cons.IH[of "Suc p" acc'] Cons.prems by auto
  then show ?case by (simp add: it tw)
qed

lemma batch_of_ok:
  assumes "1 \<le> W" and "W < 2 ^ 63 - 1"
  shows "\<exists>b. batch_of cw W g p = Inr (b, p + length cw)"
proof -
  have "\<exists>b. chunk_loop cw (enumerate 0 cw) W g p ([], []) = Inr (b, p + length (enumerate 0 cw))"
    by (rule chunk_loop_ok[OF assms]) (auto simp: in_set_enumerate_eq)
  then show ?thesis by (simp add: batch_of_def)
qed

lemma batches_loop_snoc:
  "batches_loop words B W g (idxs @ [idx]) p =
     bindE (batches_loop words B W g idxs p) (\<lambda>(bs, q).
       bindE (batch_of (py_slice words idx (idx + B)) W g q) (\<lambda>(b, q').
         Inr (bs @ [b], q')))"
proof (induction idxs arbitrary: p)
  case Nil
  show ?case by (simp add: bindE_def split: sum.splits prod.splits)
next
  case (Cons a idxs)
  show ?case
    by (simp add: Cons.IH bindE_def split: sum.splits prod.splits)
qed

lemma py_slice_chunk:
  assumes "1 \<le> B"
  shows "py_slice words (int k * B) (int k * B + B) = take (nat B) (drop (k * nat B) words)"
proof -
  have "0 \<le> int k * B" using assms by simp
  then have nn: "\<not> int k * B < 0" "\<not> int k * B + B < 0" using assms by linarith+
  have a: "nat (int k * B) = k * nat B" using assms by (simp add: nat_mult_distrib)
  have b: "nat (int k * B + B) = k * nat B + nat B" using assms
    by (simp add: nat_add_distrib nat_mult_distrib)
  show ?thesis
    by (simp add: py_slice_def slice_bound_def nn a b Let_def min_def)
qed

lemma batches_loop_full:
  assumes "1 \<le> W" "W < 2 ^ 63 - 1" "1 \<le> B" "m * nat B \<le> length words"
  shows "\<exists>bs. batches_loop words B W g (map (\<lambda>k. int k * B) [0..<m]) p = Inr (bs, p + m * nat B)
            \<and> length bs = m"
  using assms(4)
proof (induction m)
  case 0
  show ?case by simp
next
  case (Suc m)
  then obtain bs where bs:
    "batches_loop words B W g (map (\<lambda>k. int k * B) [0..<m]) p = Inr (bs, p + m * nat B)"
    "length bs = m" by auto
  let ?cw = "take (nat B) (drop (m * nat B) words)"
  have l: "length ?cw = nat B" using Suc.prems by auto
  obtain b where b: "batch_of ?cw W g (p + m * nat B) = Inr (b, p + m * nat B + length ?cw)"
    using batch_of_ok[OF assms(1,2)] by blast
  show ?case
    using bs b l by (simp add: batches_loop_snoc py_slice_chunk[OF assms(3)] add.assoc)
qed

lemma range_count:
  assumes "0 < b" "n mod b \<noteq> 0"
  shows "nat ((int n + int b - 1) div int b) = Suc (n div b)"
proof -
  define r where "r = n mod b - 1"
  have r: "Suc r = n mod b" "r < b"
    using assms mod_less_divisor[OF assms(1), of n] by (simp_all add: r_def)
  have "n = n div b * b + Suc r" by (simp add: r(1))
  then have "n + b - 1 = Suc (n div b) * b + r" by simp
  moreover have "(Suc (n div b) * b + r) div b = Suc (n div b)"
    using r(2) by (intro div_nat_eqI) (simp_all add: algebra_simps)
  ultimately have "(n + b - 1) div b = Suc (n div b)" by (simp only:)
  moreover have "int n + int b - 1 = int (n + b - 1)" using assms(1) by (simp add: of_nat_diff)
  ultimately show ?thesis by (simp only: zdiv_int[symmetric] nat_int)
qed

text \<open>
  Claim C3. When the length of the input is not a multiple of the batch size
  \<open>B \<ge> 1\<close> (and the window size is in the range \<open>1 \<le> W < 2 ^ 63 - 1\<close> in which
  the random draw of \<open>get_target\<close> is defined), \<open>get_batches\<close> raises no error and yields
  \<open>len div B\<close> batches followed by one more: the batch that the loop body builds from
  the trailing chunk \<open>words[len - len mod B:]\<close>, which holds at least one and fewer
  than \<open>B\<close> tokens. The trailing partial chunk is not dropped.
\<close>

theorem get_batches_keeps_partial_chunk:
  assumes "1 \<le> B" and "1 \<le> W" and "W < 2 ^ 63 - 1"
    and "length words mod nat B \<noteq> 0"
  shows "\<exists>bs b. get_batches words B W g p = Inr (bs @ [b], p + length words)
           \<and> length bs = length words div nat B
           \<and> batch_of (drop (length words - length words mod nat B) words) W g
                (p + (length words - length words mod nat B)) = Inr (b, p + length words)
           \<and> 0 < length (drop (length words - length words mod nat B) words)
           \<and> length (drop (length words - length words mod nat B) words) < nat B"
proof -
  let ?n = "length words"
  let ?b = "nat B"
  let ?m = "?n div ?b"
  let ?cw = "drop (?n - ?n mod ?b) words"
  have bpos: "0 < ?b" using assms(1) by simp
  have full: "?m * ?b = ?n - ?n mod ?b" by (simp add: minus_mod_eq_div_mult)
  have le: "?m * ?b \<le> ?n" by simp
  have cnt: "nat ((int ?n + B - 1) div B) = Suc ?m"
  proof -
    have B: "int ?b = B" using assms(1) by simp
    show ?thesis using range_count[OF bpos assms(4)] by (simp only: B)
  qed
  have rng: "py_range 0 (int ?n) B = Inr (map (\<lambda>k. int k * B) [0..<?m] @ [int ?m * B])"
    using assms(1) by (simp add: py_range_def cnt)
  obtain bs where bs:
    "batches_loop words B W g (map (\<lambda>k. int k * B) [0..<?m]) p = Inr (bs, p + ?m * ?b)"
    "length bs = ?m"
    using batches_loop_full[OF assms(2,3,1) le] by blast
  have chunk: "py_slice words (int ?m * B) (int ?m * B + B) = ?cw"
    by (simp add: py_slice_chunk[OF assms(1)] full less_imp_le[OF mod_less_divisor[OF bpos]])
  have len: "length ?cw = ?n mod ?b"
    by (simp only: length_drop diff_diff_cancel[OF mod_less_eq_dividend])
  obtain b where b: "batch_of ?cw W g (p + ?m * ?b) = Inr (b, p + ?m * ?b + length ?cw)"
    using batch_of_ok[OF assms(2,3)] by blast
  have st: "p + ?m * ?b + length ?cw = p + ?n"
    by (simp only: len add.assoc div_mult_mod_eq)
  have gb: "get_batches words B W g p = Inr (bs @ [b], p + ?n)"
    by (simp only: get_batches_def rng bindE_simps batches_loop_snoc bs(1) prod.case chunk b st)
  have b': "batch_of ?cw W g (p + (?n - ?n mod ?b)) = Inr (b, p + ?n)"
    using b[unfolded st] by (simp only: full)
  have "0 < length ?cw" "length ?cw < ?b"
    using assms(4) bpos by (simp_all only: len mod_less_divisor neq0_conv)
  with gb bs(2) b' show ?thesis by blast
qed

theorem get_batches_keeps_partial_chunk_witness:
  "(1::int) \<le> 2 \<and> (1::int) \<le> 1 \<and> (1::int) < 2 ^ 63 - 1
   \<and> length [0, 1, 2, 3, 4::nat] mod nat 2 \<noteq> 0
   \<and> get_batches [0, 1, 2, 3, 4::nat] 2 1 (\<lambda>k. 0) 0
        = Inr ([([0, 1], [1, 0]), ([2, 3], [3, 2])] @ [([], [])], 0 + length [0, 1, 2, 3, 4::nat])
   \<and> batch_of (drop (length [0, 1, 2, 3, 4::nat] - length [0, 1, 2, 3, 4::nat] mod nat 2) [0, 1, 2, 3, 4::nat])
         1 (\<lambda>k. 0) (0 + (length [0, 1, 2, 3, 4::nat] - length [0, 1, 2, 3, 4::nat] mod nat 2))
        = Inr (([], []), 0 + length [0, 1, 2, 3, 4::nat])"
proof -
  have h1: "(1::int) \<le> 2" and h2: "(1::int) \<le> 1" and hw: "(1::int) < 2 ^ 63 - 1"
    by simp_all
  have h3: "length [0, 1, 2, 3, 4::nat] mod nat 2 \<noteq> 0" by simp
  have ev: "get_batches [0, 1, 2, 3, 4::nat] 2 1 (\<lambda>k. 0) 0
        = Inr ([([0, 1], [1, 0]), ([2, 3], [3, 2])] @ [([], [])], 0 + length [0, 1, 2, 3, 4::nat])"
    by code_simp
  from get_batches_keeps_partial_chunk[OF h1 h2 hw h3, of "\<lambda>k. 0" 0]
  obtain bs b where
    gb: "get_batches [0, 1, 2, 3, 4::nat] 2 1 (\<lambda>k. 0) 0 = Inr (bs @ [b], 0 + length [0, 1, 2, 3, 4::nat])"
    and bo: "batch_of (drop (length [0, 1, 2, 3, 4::nat] - length [0, 1, 2, 3, 4::nat] mod nat 2) [0, 1, 2, 3, 4::nat])
         1 (\<lambda>k. 0) (0 + (length [0, 1, 2, 3, 4::nat] - length [0, 1, 2, 3, 4::nat] mod nat 2))
        = Inr (b, 0 + length [0, 1, 2, 3, 4::nat])"
    by blast
  from gb ev have "bs @ [b] = [([0, 1], [1, 0]), ([2, 3], [3, 2])] @ [([], [])]" by simp
  then have "b = ([], [])" by simp
  with bo h1 h2 hw h3 ev show ?thesis by (simp only: simp_thms)
qed

section \<open>Properties of the Subsampler\<close>


lemma round_half_even_of_int [simp]: "round_half_even (of_int n) = n"
  by (simp add: round_half_even_def)

lemma round_half_even_numeral [simp]:
  "round_half_even (numeral n) = numeral n"
  "round_half_even (- numeral n) = - numeral n"
  using round_half_even_of_int[of "numeral n"] round_half_even_of_int[of "- numeral n"]
  by simp_all

lemma floor_log2_binade:
  assumes "2 powi e \<le> x" "x < 2 powi (e + 1)"
  shows "\<lfloor>log 2 x\<rfloor> = e"
proof -
  have pos: "0 < x" using assms(1) by (smt (verit) zero_less_power_int)
  have "(2::real) powr real_of_int e = 2 powi e" "(2::real) powr (real_of_int e + 1) = 2 powi (e + 1)"
    using powr_real_of_int'[of 2 e] powr_real_of_int'[of 2 "e + 1"] by simp_all
  then show ?thesis using assms floor_log_eq_powr_iff[of x 2 e] pos by simp
qed

lemma float32_binade:
  assumes "2 powi e \<le> \<bar>x\<bar>" "\<bar>x\<bar> < 2 powi (e + 1)" "- 126 \<le> e"
  shows "float32 x =
     (let ulp = 2 powi (e - 23); y = of_int (round_half_even (x / ulp)) * ulp
      in if 2 ^ 128 \<le> \<bar>y\<bar> then (if 0 < x then PInf else NInf) else Fin y)"
proof -
  have "x \<noteq> 0" using assms(1) by (smt (verit) zero_less_power_int abs_zero)
  moreover have "max (- 126) \<lfloor>log 2 \<bar>x\<bar>\<rfloor> = e"
    using floor_log2_binade[OF assms(1,2)] assms(3) by simp
  ultimately show ?thesis by (simp add: float32_def Let_def)
qed


lemma float32_two: "float32 2 = Fin 2"
  using float32_binade[of 1 2] by (simp add: Let_def power_int_minus field_simps)

lemma float32_four: "float32 4 = Fin 4"
  using float32_binade[of 2 4] by (simp add: Let_def power_int_minus field_simps)

lemma float32_minus_one: "float32 (- 1) = Fin (- 1)"
  using float32_binade[of 0 "- 1"] by (simp add: Let_def power_int_minus field_simps)





lemma mapM_Inl:
  assumes "x \<in> set xs" "f x = Inl e"
    and "\<And>y e'. y \<in> set xs \<Longrightarrow> f y = Inl e' \<Longrightarrow> e' = e"
  shows "mapM f xs = Inl e"
  using assms
proof (induction xs)
  case Nil
  then show ?case by simp
next
  case (Cons a xs)
  show ?case
  proof (cases "f a")
    case (Inl e')
    then have "e' = e" using Cons.prems(3)[of a e'] by simp
    then show ?thesis using Inl by simp
  next
    case (Inr y)
    have "x \<noteq> a"
    proof
      assume "x = a"
      with Inr Cons.prems(2) show False by simp
    qed
    with Cons.prems(1) have x: "x \<in> set xs" by simp
    have "mapM f xs = Inl e"
    proof (rule Cons.IH[OF x Cons.prems(2)])
      fix y e' assume "y \<in> set xs" "f y = Inl e'"
      then show "e' = e" using Cons.prems(3)[of y e'] by simp
    qed
    then show ?thesis using Inr by simp
  qed
qed

lemma Counter_count_pos: "(w, c) \<in> set (Counter ws) \<Longrightarrow> 0 < c"
  using Counter_entry[of w c ws] count_list_0_iff[of ws w] by (cases c) auto

lemma sum_counter_add: "sum_list (map snd (counter_add w d)) = Suc (sum_list (map snd d))"
  by (induction w d rule: counter_add.induct) auto

lemma sum_fold_counter_add:
  "sum_list (map snd (fold counter_add ws acc)) = length ws + sum_list (map snd acc)"
  by (induction ws arbitrary: acc) (auto simp: sum_counter_add)

lemma sum_Counter: "sum_list (map snd (Counter ws)) = length ws"
  by (simp add: Counter_def sum_fold_counter_add)

lemma keys_freq_table: "map fst (freq_table words) = map fst (Counter words)"
  by (simp add: freq_table_def case_prod_beta)

lemma freqs_of_Counter: "freqs_of (Counter words) (length words) = Inr (freq_table words)"
proof -
  have "mapM (\<lambda>(word, count). bindE (py_truediv (real count) (real (length words))) (\<lambda>q. Inr (word, q)))
          (Counter words)
      = Inr (map (\<lambda>(w, c). (w, real c / real (length words))) (Counter words))"
  proof (rule mapM_Inr)
    fix x assume x: "x \<in> set (Counter words)"
    then have "fst x \<in> set words" using Counter_entry[of "fst x" "snd x" words] by simp
    then have "length words \<noteq> 0" by auto
    then show "(case x of (word, count) \<Rightarrow>
            bindE (py_truediv (real count) (real (length words))) (\<lambda>q. Inr (word, q)))
        = Inr (case x of (w, c) \<Rightarrow> (w, real c / real (length words)))"
      by (simp add: py_truediv_def case_prod_beta)
  qed
  moreover have "dict_of (freq_table words) = freq_table words"
    by (rule dict_of_distinct) (simp add: keys_freq_table distinct_Counter)
  ultimately show ?thesis by (simp add: freqs_of_def freq_table_def)
qed

lemma map_of_freq_table:
  "map_of (freq_table words) w =
     (if w \<in> set words then Some (real (count_list words w) / real (length words)) else None)"
proof -
  have "map_of (freq_table words) w = map_option (\<lambda>c. real c / real (length words)) (map_of (Counter words) w)"
    by (simp add: freq_table_def map_of_map)
  then show ?thesis by (simp add: map_of_Counter)
qed

lemma sum_freq_table:
  assumes "words \<noteq> []"
  shows "sum_list (map snd (freq_table words)) = 1"
proof -
  have "sum_list (map snd (map (\<lambda>(w, c). (w, real c / n)) C)) = real (sum_list (map snd C)) / n"
    for C :: "(string \<times> nat) list" and n :: real
    by (induction C) (auto simp: add_divide_distrib)
  then have "sum_list (map snd (freq_table words)) = real (length words) / real (length words)"
    by (simp add: freq_table_def sum_Counter)
  then show ?thesis using assms by simp
qed

lemma prob_discard_of_zero:
  assumes "(w, 0) \<in> set freqs"
  shows "prob_discard_of threshold freqs = Inl ZeroDivisionError"
proof -
  let ?f = "\<lambda>(word, freq). bindE (py_truediv threshold freq)
              (\<lambda>q. Inr (word, tround (tsub (Fin 1) (tround (tsqrt (float32 q))))))"
  have "mapM ?f freqs = Inl ZeroDivisionError"
  proof (rule mapM_Inl[OF assms])
    show "?f (w, 0) = Inl ZeroDivisionError" by (simp add: py_truediv_def)
  next
    fix y e' assume "y \<in> set freqs" and y: "?f y = Inl e'"
    show "e' = ZeroDivisionError"
      using y by (auto simp: py_truediv_def split: if_splits prod.splits)
  qed
  then show ?thesis by (simp add: prob_discard_of_def)
qed

lemma prob_discard_of_nonzero:
  assumes "\<And>w f. (w, f) \<in> set freqs \<Longrightarrow> f \<noteq> 0"
  shows "prob_discard_of threshold freqs = Inr (dict_of (map (discard_entry threshold) freqs))"
proof -
  have "mapM (\<lambda>(word, freq). bindE (py_truediv threshold freq)
              (\<lambda>q. Inr (word, tround (tsub (Fin 1) (tround (tsqrt (float32 q))))))) freqs
      = Inr (map (discard_entry threshold) freqs)"
  proof (rule mapM_Inr)
    fix x assume "x \<in> set freqs"
    then have "snd x \<noteq> 0" using assms[of "fst x" "snd x"] by simp
    then show "(case x of (word, freq) \<Rightarrow> bindE (py_truediv threshold freq)
              (\<lambda>q. Inr (word, tround (tsub (Fin 1) (tround (tsqrt (float32 q)))))))
        = Inr (discard_entry threshold x)"
      by (simp add: py_truediv_def discard_entry_def case_prod_beta)
  qed
  then show ?thesis by (simp add: prob_discard_of_def)
qed

lemma freq_table_pos: "(w, f) \<in> set (freq_table words) \<Longrightarrow> 0 < f"
proof -
  assume "(w, f) \<in> set (freq_table words)"
  then obtain c where c: "(w, c) \<in> set (Counter words)" "f = real c / real (length words)"
    by (auto simp: freq_table_def)
  from c(1) have "0 < c" by (rule Counter_count_pos)
  moreover from c(1) have "w \<in> set words" using Counter_entry by fastforce
  then have "0 < length words" by (cases words) auto
  ultimately show "0 < f" by (simp add: c(2))
qed

lemma prob_discard_of_freq_table:
  "prob_discard_of threshold (freq_table words) = Inr (map (discard_entry threshold) (freq_table words))"
proof -
  have nz: "f \<noteq> 0" if "(w, f) \<in> set (freq_table words)" for w f
    using freq_table_pos[OF that] by simp
  have "map fst (map (discard_entry threshold) (freq_table words)) = map fst (Counter words)"
    by (simp add: discard_entry_def keys_freq_table[symmetric] case_prod_beta)
  then have "dict_of (map (discard_entry threshold) (freq_table words))
      = map (discard_entry threshold) (freq_table words)"
    by (intro dict_of_distinct) (simp add: distinct_Counter)
  then show ?thesis using prob_discard_of_nonzero[of "freq_table words" threshold] nz by simp
qed

lemma map_of_discard_table:
  "map_of (map (discard_entry threshold) (freq_table words)) w =
     (if w \<in> set words
      then Some (tround (tsub (Fin 1) (tround (tsqrt (float32
              (threshold / (real (count_list words w) / real (length words))))))))
      else None)"
proof -
  have "map_of (map (discard_entry threshold) (freq_table words)) w
      = map_option (\<lambda>f. tround (tsub (Fin 1) (tround (tsqrt (float32 (threshold / f))))))
          (map_of (freq_table words) w)"
    by (simp add: discard_entry_def map_of_map)
  then show ?thesis by (simp add: map_of_freq_table)
qed

lemma subsample_words_unfold:
  "subsample_words words vocab_to_int threshold us =
     bindE (train_words_of words vocab_to_int (map (discard_entry threshold) (freq_table words)) us 0)
       (\<lambda>train_words. Inr (train_words, freq_table words))"
  by (simp add: subsample_words_def Let_def freqs_of_Counter prob_discard_of_freq_table)


lemma train_words_of_ok:
  assumes "\<And>w. w \<in> set ws \<Longrightarrow> map_of pd w \<noteq> None \<and> map_of v2i w \<noteq> None"
  shows "\<exists>r. train_words_of ws v2i pd us p = Inr r"
  using assms
proof (induction ws arbitrary: p)
  case Nil
  show ?case by simp
next
  case (Cons w ws)
  obtain d c where d: "map_of pd w = Some d" and c: "map_of v2i w = Some c"
    using Cons.prems[of w] by auto
  obtain r where r: "train_words_of ws v2i pd us (Suc p) = Inr r"
    using Cons.IH[of "Suc p"] Cons.prems by auto
  show ?case by (simp add: dict_get_def d c r)
qed

lemma train_words_of_error:
  "train_words_of ws v2i pd us p = Inl e \<Longrightarrow> e = KeyError"
proof (induction ws arbitrary: p)
  case Nil
  then show ?case by simp
next
  case (Cons w ws)
  then show ?case
    by (auto simp: dict_get_def bindE_def split: option.splits if_splits sum.splits)
qed

lemma discard_table_complete:
  assumes "w \<in> set words"
  shows "map_of (map (discard_entry threshold) (freq_table words)) w \<noteq> None"
  using assms by (simp add: map_of_discard_table)

text \<open>
  Claim C9. For a non-empty token list, \<open>subsample_words\<close> returns whenever every
  word has a code in \<open>vocab_to_int\<close>, and whenever it returns, the frequency table
  it returns has exactly the distinct words of the input as keys, gives each word
  its occurrence count divided by the total number of tokens, and its values sum to
  \<open>1\<close>. Frequencies are exact real numbers here; the rounding of floating-point
  division is outside the model.
\<close>

theorem subsample_words_frequency_table:
  assumes "words \<noteq> []"
  shows "(set words \<subseteq> fst ` set vocab_to_int \<longrightarrow>
            (\<exists>train freqs. subsample_words words vocab_to_int threshold us = Inr (train, freqs)))
       \<and> (\<forall>train freqs. subsample_words words vocab_to_int threshold us = Inr (train, freqs) \<longrightarrow>
            (\<forall>w \<in> set words. dict_get freqs w = Inr (real (count_list words w) / real (length words)))
            \<and> set (map fst freqs) = set words \<and> distinct (map fst freqs)
            \<and> sum_list (map snd freqs) = 1)"
proof (intro conjI impI allI)
  assume cover: "set words \<subseteq> fst ` set vocab_to_int"
  have "map_of (map (discard_entry threshold) (freq_table words)) w \<noteq> None
      \<and> map_of vocab_to_int w \<noteq> None" if "w \<in> set words" for w
    using that cover discard_table_complete[OF that, of threshold]
    by (auto simp: map_of_eq_None_iff)
  from train_words_of_ok[OF this, of words us 0]
  obtain r where "train_words_of words vocab_to_int
      (map (discard_entry threshold) (freq_table words)) us 0 = Inr r"
    by blast
  then show "\<exists>train freqs. subsample_words words vocab_to_int threshold us = Inr (train, freqs)"
    by (simp add: subsample_words_unfold)
next
  fix train freqs
  assume "subsample_words words vocab_to_int threshold us = Inr (train, freqs)"
  then have f: "freqs = freq_table words"
    by (auto simp: subsample_words_unfold bindE_def split: sum.splits)
  show "\<forall>w \<in> set words. dict_get freqs w = Inr (real (count_list words w) / real (length words))"
    by (simp add: f dict_get_def map_of_freq_table)
  show "set (map fst freqs) = set words"
    using keys_Counter[of words] by (simp add: f keys_freq_table)
  show "distinct (map fst freqs)"
    by (simp add: f keys_freq_table distinct_Counter)
  show "sum_list (map snd freqs) = 1"
    unfolding f by (rule sum_freq_table[OF assms])
qed

lemma subsample_words_example:
  "subsample_words [''a'', ''b''] [(''a'', 0), (''b'', 1)] 2 (\<lambda>k. 0)
     = Inr ([0, 1], [(''a'', 1 / 2), (''b'', 1 / 2)])"
  by (simp add: subsample_words_def Counter_def freqs_of_def prob_discard_of_def dict_of_def
        py_truediv_def dict_get_def tsub_def float32_four float32_two float32_minus_one)

theorem subsample_words_frequency_table_witness:
  "[''a'', ''b''] \<noteq> []
   \<and> subsample_words [''a'', ''b''] [(''a'', 0), (''b'', 1)] 2 (\<lambda>k. 0)
        = Inr ([0, 1], [(''a'', 1 / 2), (''b'', 1 / 2)])
   \<and> sum_list (map snd [(''a'', 1 / 2 :: real), (''b'', 1 / 2)]) = 1
   \<and> dict_get [(''a'', 1 / 2 :: real), (''b'', 1 / 2)] ''b''
        = Inr (real (count_list [''a'', ''b''] ''b'') / real (length [''a'', ''b'']))"
proof -
  have ne: "[''a'', ''b''] \<noteq> []" by simp
  note ex = subsample_words_example
  from subsample_words_frequency_table[OF ne, of "[(''a'', 0), (''b'', 1)]" 2 "\<lambda>k. 0"] ex
  have p: "(\<forall>w \<in> set [''a'', ''b'']. dict_get [(''a'', 1 / 2 :: real), (''b'', 1 / 2)] w
              = Inr (real (count_list [''a'', ''b''] w) / real (length [''a'', ''b''])))
        \<and> sum_list (map snd [(''a'', 1 / 2 :: real), (''b'', 1 / 2)]) = 1"
    by blast
  then have "dict_get [(''a'', 1 / 2 :: real), (''b'', 1 / 2)] ''b''
        = Inr (real (count_list [''a'', ''b''] ''b'') / real (length [''a'', ''b'']))"
    by simp
  with p ne ex show ?thesis by blast
qed





text \<open>
  Claim C7. The comprehension that computes the discard probabilities raises
  \<open>ZeroDivisionError\<close> when an entry of the frequency table is exactly zero, and
  divides without error when no entry is zero. The table that \<open>subsample_words\<close>
  builds from its input has only positive entries, since every word in it was
  counted at least once; so the division succeeds on it and \<open>subsample_words\<close>
  never ends in \<open>ZeroDivisionError\<close>.
\<close>

theorem subsample_words_zero_frequency:
  "((\<exists>w. (w, 0) \<in> set freqs) \<longrightarrow> prob_discard_of threshold freqs = Inl ZeroDivisionError)
   \<and> ((\<forall>w f. (w, f) \<in> set freqs \<longrightarrow> f \<noteq> 0) \<longrightarrow>
         (\<exists>pd. prob_discard_of threshold freqs = Inr pd))
   \<and> (\<exists>observed. freqs_of (Counter words) (length words) = Inr observed
         \<and> (\<forall>w f. (w, f) \<in> set observed \<longrightarrow> 0 < f)
         \<and> (\<exists>pd. prob_discard_of threshold observed = Inr pd))
   \<and> subsample_words words vocab_to_int threshold us \<noteq> Inl ZeroDivisionError"
proof (intro conjI impI)
  assume "\<exists>w. (w, 0) \<in> set freqs"
  then show "prob_discard_of threshold freqs = Inl ZeroDivisionError"
    using prob_discard_of_zero by blast
next
  assume "\<forall>w f. (w, f) \<in> set freqs \<longrightarrow> f \<noteq> 0"
  then show "\<exists>pd. prob_discard_of threshold freqs = Inr pd"
    using prob_discard_of_nonzero[of freqs threshold] by blast
next
  show "\<exists>observed. freqs_of (Counter words) (length words) = Inr observed
         \<and> (\<forall>w f. (w, f) \<in> set observed \<longrightarrow> 0 < f)
         \<and> (\<exists>pd. prob_discard_of threshold observed = Inr pd)"
    using freqs_of_Counter[of words] freq_table_pos[of _ _ words]
      prob_discard_of_freq_table[of threshold words] by blast
next
  show "subsample_words words vocab_to_int threshold us \<noteq> Inl ZeroDivisionError"
  proof
    assume "subsample_words words vocab_to_int threshold us = Inl ZeroDivisionError"
    then have "train_words_of words vocab_to_int
        (map (discard_entry threshold) (freq_table words)) us 0 = Inl ZeroDivisionError"
      by (auto simp: subsample_words_unfold bindE_def split: sum.splits)
    from train_words_of_error[OF this] show False by simp
  qed
qed

theorem subsample_words_zero_frequency_witness:
  "(''a'', 0) \<in> set [(''a'', 0 :: real)]
   \<and> prob_discard_of 1 [(''a'', 0)] = Inl ZeroDivisionError
   \<and> subsample_words [''a'', ''b''] [(''a'', 0), (''b'', 1)] 2 (\<lambda>k. 0) \<noteq> Inl ZeroDivisionError
   \<and> subsample_words [''a'', ''b''] [(''a'', 0), (''b'', 1)] 2 (\<lambda>k. 0)
        = Inr ([0, 1], [(''a'', 1 / 2), (''b'', 1 / 2)])"
proof -
  have m: "(''a'', 0) \<in> set [(''a'', 0 :: real)]" by simp
  note t = subsample_words_zero_frequency[where freqs = "[(''a'', 0)]" and threshold = 1
      and words = "[]" and vocab_to_int = "[]" and us = "\<lambda>k. 0"]
  note t' = subsample_words_zero_frequency[where freqs = "[]" and threshold = 2
      and words = "[''a'', ''b'']" and vocab_to_int = "[(''a'', 0), (''b'', 1)]" and us = "\<lambda>k. 0"]
  from t m have z: "prob_discard_of 1 [(''a'', 0)] = Inl ZeroDivisionError" by blast
  from t' have n: "subsample_words [''a'', ''b''] [(''a'', 0), (''b'', 1)] 2 (\<lambda>k. 0) \<noteq> Inl ZeroDivisionError"
    by blast
  show ?thesis by (intro conjI) (rule m z n subsample_words_example)+
qed

section \<open>Properties of the Similarity Evaluator\<close>











end
